theory Spec2Isabelle
  imports Complex_Main "HOL-Library.Log_Nat"
begin

section \<open>Python floats as used by the yield calculator\<close>

text \<open>
  A Python \<open>float\<close> is an IEEE 754 binary64 value: a finite number, an infinity or a
  NaN. A finite value is kept as the rational it denotes. The two zeros are
  identified: the operations below never tell them apart (comparisons treat them as
  equal, a division by either raises, \<open>int\<close> of either is \<open>0\<close>).
\<close>

datatype pyfloat = Fin rat | PInf | NInf | NaN

datatype py_error = ZeroDivisionError | OverflowError | ValueError

text \<open>Rounding half to even, to an integer.\<close>

definition rne :: "rat \<Rightarrow> int" where
  "rne q = (let f = \<lfloor>q\<rfloor>; r = q - of_int f
            in if r < 1 / 2 then f
               else if 1 / 2 < r then f + 1
               else if even f then f else f + 1)"

text \<open>The binary exponent of a positive rational: \<open>2 powi e \<le> q < 2 powi (e + 1)\<close>.\<close>

definition ilog2 :: "rat \<Rightarrow> int" where
  "ilog2 q = (if 1 \<le> q then bitlen \<lfloor>q\<rfloor> - 1 else - bitlen (\<lceil>1 / q\<rceil> - 1))"

text \<open>
  Round to nearest, ties to even, with a 53-bit significand and the least exponent
  of binary64 (so that values below \<open>2 powi (-1022)\<close> are rounded on the subnormal
  grid of spacing \<open>2 powi (-1074)\<close>), the exponent unbounded above.
\<close>

definition round_pos :: "rat \<Rightarrow> rat" where
  "round_pos q = (let k = max (ilog2 q - 52) (- 1074)
                  in of_int (rne (q / 2 powi k)) * 2 powi k)"

text \<open>The result of an arithmetic operation whose exact value is \<open>q\<close>.\<close>

definition fl_round :: "rat \<Rightarrow> pyfloat" where
  "fl_round q =
     (if q = 0 then Fin 0
      else if 0 < q then (let r = round_pos q in if 2 ^ 1024 \<le> r then PInf else Fin r)
      else (let r = round_pos (- q) in if 2 ^ 1024 \<le> r then NInf else Fin (- r)))"

text \<open>Comparison \<open>a <= b\<close>: false as soon as one side is a NaN.\<close>

fun fl_le :: "pyfloat \<Rightarrow> pyfloat \<Rightarrow> bool" where
  "fl_le NaN _ = False"
| "fl_le _ NaN = False"
| "fl_le (Fin a) (Fin b) = (a \<le> b)"
| "fl_le NInf _ = True"
| "fl_le _ PInf = True"
| "fl_le _ _ = False"

text \<open>Subtraction \<open>a - b\<close> and multiplication \<open>a * b\<close>: they never raise.\<close>

fun fl_sub :: "pyfloat \<Rightarrow> pyfloat \<Rightarrow> pyfloat" where
  "fl_sub (Fin a) (Fin b) = fl_round (a - b)"
| "fl_sub NaN _ = NaN"
| "fl_sub _ NaN = NaN"
| "fl_sub PInf PInf = NaN"
| "fl_sub NInf NInf = NaN"
| "fl_sub PInf _ = PInf"
| "fl_sub NInf _ = NInf"
| "fl_sub (Fin a) PInf = NInf"
| "fl_sub (Fin a) NInf = PInf"

fun fl_mul :: "pyfloat \<Rightarrow> pyfloat \<Rightarrow> pyfloat" where
  "fl_mul (Fin a) (Fin b) = fl_round (a * b)"
| "fl_mul NaN _ = NaN"
| "fl_mul _ NaN = NaN"
| "fl_mul PInf (Fin b) = (if b = 0 then NaN else if 0 < b then PInf else NInf)"
| "fl_mul NInf (Fin b) = (if b = 0 then NaN else if 0 < b then NInf else PInf)"
| "fl_mul (Fin a) PInf = (if a = 0 then NaN else if 0 < a then PInf else NInf)"
| "fl_mul (Fin a) NInf = (if a = 0 then NaN else if 0 < a then NInf else PInf)"
| "fl_mul PInf PInf = PInf"
| "fl_mul PInf NInf = NInf"
| "fl_mul NInf PInf = NInf"
| "fl_mul NInf NInf = PInf"

text \<open>
  True division \<open>a / b\<close>: a zero divisor raises \<open>ZeroDivisionError\<close> whatever the
  dividend is; nothing else raises (an overflow gives an infinity).
\<close>

fun py_truediv :: "pyfloat \<Rightarrow> pyfloat \<Rightarrow> py_error + pyfloat" where
  "py_truediv a (Fin b) =
     (if b = 0 then Inl ZeroDivisionError
      else Inr (case a of
                  Fin x \<Rightarrow> fl_round (x / b)
                | PInf \<Rightarrow> if 0 < b then PInf else NInf
                | NInf \<Rightarrow> if 0 < b then NInf else PInf
                | NaN \<Rightarrow> NaN))"
| "py_truediv NaN _ = Inr NaN"
| "py_truediv _ NaN = Inr NaN"
| "py_truediv (Fin x) _ = Inr (Fin 0)"
| "py_truediv _ _ = Inr NaN"

text \<open>
  \<open>a ** 2\<close>: the square of an infinity is \<open>inf\<close> and of a NaN is a NaN; a finite
  square that overflows raises \<open>OverflowError\<close>, one that underflows is \<open>0.0\<close>.
  The square is taken to be correctly rounded.
\<close>

fun py_pow2 :: "pyfloat \<Rightarrow> py_error + pyfloat" where
  "py_pow2 (Fin x) =
     (case fl_round (x * x) of
        PInf \<Rightarrow> Inl OverflowError
      | r \<Rightarrow> Inr r)"
| "py_pow2 NaN = Inr NaN"
| "py_pow2 _ = Inr PInf"

text \<open>\<open>int(a)\<close> truncates toward zero; an infinity and a NaN raise.\<close>

fun py_int :: "pyfloat \<Rightarrow> py_error + int" where
  "py_int (Fin x) = Inr (if 0 \<le> x then \<lfloor>x\<rfloor> else \<lceil>x\<rceil>)"
| "py_int NaN = Inl ValueError"
| "py_int _ = Inl OverflowError"

text \<open>\<open>math.pi\<close>, the double \<open>0x400921FB54442D18\<close>.\<close>

definition math_pi :: pyfloat where
  "math_pi = Fin (884279719003555 / 2 ^ 48)"

text \<open>Sequencing of steps that may raise.\<close>

definition bind_err :: "py_error + 'a \<Rightarrow> ('a \<Rightarrow> py_error + 'b) \<Rightarrow> py_error + 'b" where
  "bind_err m f = (case m of Inl e \<Rightarrow> Inl e | Inr v \<Rightarrow> f v)"

section \<open>The yield calculator\<close>

text \<open>
  The body of the \<open>try\<close> block of \<open>calc_labels_per_roll\<close>, in Python's order of
  evaluation. \<open>labels_per_set\<close> is an \<open>int\<close> (the form field is an integer input),
  so \<open>int(labels_per_set)\<close> is the value itself.
\<close>

definition labels_try :: "pyfloat \<Rightarrow> pyfloat \<Rightarrow> pyfloat \<Rightarrow> pyfloat \<Rightarrow> int \<Rightarrow> py_error + int" where
  "labels_try thickness_mm roll_diam_cm core_diam_cm mark_set_cm labels_per_set =
     bind_err (py_truediv roll_diam_cm (Fin 100)) (\<lambda>roll_m.
     bind_err (py_pow2 roll_m) (\<lambda>roll_sq.
     bind_err (py_truediv core_diam_cm (Fin 100)) (\<lambda>core_m.
     bind_err (py_pow2 core_m) (\<lambda>core_sq.
     bind_err (py_truediv thickness_mm (Fin 1000)) (\<lambda>thickness_m.
     bind_err (py_truediv (fl_sub roll_sq core_sq) (fl_mul (Fin 4) thickness_m)) (\<lambda>quot.
     bind_err (py_truediv mark_set_cm (Fin 100)) (\<lambda>mark_m.
     bind_err (py_truediv (fl_mul math_pi quot) mark_m) (\<lambda>sets.
     bind_err (py_int sets) (\<lambda>n.
     Inr (n * labels_per_set))))))))))"

text \<open>
  \<open>calc_labels_per_roll\<close>: an argument is \<open>None\<close> or a value; the guard returns 0,
  and so does the handler of the \<open>try\<close> block.
\<close>

fun calc_labels_per_roll ::
  "pyfloat option \<Rightarrow> pyfloat option \<Rightarrow> pyfloat option \<Rightarrow> pyfloat option \<Rightarrow> int option \<Rightarrow> int" where
  "calc_labels_per_roll (Some thickness_mm) (Some roll_diam_cm) (Some core_diam_cm)
       (Some mark_set_cm) (Some labels_per_set) =
     (if fl_le thickness_mm (Fin 0) \<or> fl_le roll_diam_cm (Fin 0) \<or> fl_le core_diam_cm (Fin 0)
         \<or> fl_le mark_set_cm (Fin 0) \<or> labels_per_set \<le> 0 then 0
      else if fl_le roll_diam_cm core_diam_cm then 0
      else (case labels_try thickness_mm roll_diam_cm core_diam_cm mark_set_cm labels_per_set of
              Inl e \<Rightarrow> 0
            | Inr labels \<Rightarrow> labels))"
| "calc_labels_per_roll _ _ _ _ _ = 0"




section \<open>The formula of the specification\<close>





section \<open>The reference catalog\<close>

text \<open>
  The column labels of the BOM sheet, as the UTF-8 bytes of the Korean headers:
  the part number, the part name, and the second part-name column, which the reader
  of the sheet labels with the suffix \<open>.1\<close>.
\<close>

definition col_pumbun :: string where
  "col_pumbun = [CHR 0xED, CHR 0x92, CHR 0x88, CHR 0xEB, CHR 0xB2, CHR 0x88]"

definition col_pummyeong :: string where
  "col_pummyeong = [CHR 0xED, CHR 0x92, CHR 0x88, CHR 0xEB, CHR 0xAA, CHR 0x85]"

definition col_pummyeong_1 :: string where
  "col_pummyeong_1 = col_pummyeong @ ''.1''"

text \<open>A data frame: its column labels and its rows; a missing cell is \<open>None\<close>.\<close>

record 'c dataframe =
  columns :: "string list"
  rows :: "'c option list list"

fun col_index :: "string \<Rightarrow> string list \<Rightarrow> nat option" where
  "col_index c [] = None"
| "col_index c (x # xs) = (if x = c then Some 0 else map_option Suc (col_index c xs))"

definition cell_at :: "'c option list \<Rightarrow> nat \<Rightarrow> 'c option" where
  "cell_at r i = (if i < length r then r ! i else None)"

text \<open>\<open>df[[a, b]]\<close>, \<open>dropna(subset=[a])\<close> and \<open>drop_duplicates(subset=[a])\<close>, the last
  keeping the first row of each key.\<close>

definition select2 :: "nat \<Rightarrow> nat \<Rightarrow> 'c option list list \<Rightarrow> 'c option list list" where
  "select2 i j rs = map (\<lambda>r. [cell_at r i, cell_at r j]) rs"

definition dropna :: "nat \<Rightarrow> 'c option list list \<Rightarrow> 'c option list list" where
  "dropna i rs = filter (\<lambda>r. cell_at r i \<noteq> None) rs"

fun drop_duplicates :: "nat \<Rightarrow> 'c option list \<Rightarrow> 'c option list list \<Rightarrow> 'c option list list" where
  "drop_duplicates i seen [] = []"
| "drop_duplicates i seen (r # rs) =
     (if cell_at r i \<in> set seen then drop_duplicates i seen rs
      else r # drop_duplicates i (cell_at r i # seen) rs)"

text \<open>The messages of \<open>st.error\<close>.\<close>

datatype diag = FileNotFound | ReadFailed string | ColumnsNotFound

definition empty_bom :: "'c dataframe" where
  "empty_bom = \<lparr>columns = [col_pumbun, col_pummyeong], rows = []\<rparr>"

text \<open>
  \<open>load_bom\<close>: the file system is the flag \<open>file_exists\<close> and the outcome of
  \<open>pd.read_excel\<close>, an exception (with its text) or the sheet. The result is the
  diagnostics reported and the catalog returned.
\<close>

definition load_bom :: "bool \<Rightarrow> string + 'c dataframe \<Rightarrow> diag list \<times> 'c dataframe" where
  "load_bom file_exists read_excel =
     (if \<not> file_exists then ([FileNotFound], empty_bom)
      else case read_excel of
             Inl e \<Rightarrow> ([ReadFailed e], empty_bom)
           | Inr df \<Rightarrow>
               (case (col_index col_pumbun (columns df), col_index col_pummyeong_1 (columns df)) of
                  (Some i, Some j) \<Rightarrow>
                    ([], \<lparr>columns = [col_pumbun, col_pummyeong],
                          rows = drop_duplicates 0 [] (dropna 0 (select2 i j (rows df)))\<rparr>)
                | _ \<Rightarrow> ([ColumnsNotFound], empty_bom)))"

section \<open>The two stores\<close>







text \<open>A cell of the vendor column: a text, or the missing value read from a blank field.\<close>

datatype cell = Text string | Missing






section \<open>Rounding: exponent, monotonicity, evaluation\<close>

lemma ilog2_bounds:
  assumes "0 < q"
  shows "2 powi (ilog2 q) \<le> q \<and> q < 2 powi (ilog2 q + 1)"
proof (cases "1 \<le> q")
  case True
  define n where "n = \<lfloor>q\<rfloor>"
  have n1: "1 \<le> n" using True by (simp add: n_def)
  have b: "2 ^ nat (bitlen n - 1) \<le> n \<and> n < 2 ^ nat (bitlen n)"
    using bitlen_bounds[of n] n1 by simp
  have bl: "1 \<le> bitlen n" using n1 by (simp add: bitlen_alt_def)
  have e: "ilog2 q = bitlen n - 1" using True by (simp add: ilog2_def n_def)
  have "(2::rat) powi (bitlen n - 1) = 2 ^ nat (bitlen n - 1)"
    using bl by (simp add: power_int_def)
  also have "\<dots> = of_int (2 ^ nat (bitlen n - 1))" by simp
  also have "\<dots> \<le> of_int n" using b by (subst of_int_le_iff) simp
  also have "\<dots> \<le> q" by (simp add: n_def)
  finally have lo: "2 powi (ilog2 q) \<le> q" by (simp add: e)
  have "n + 1 \<le> 2 ^ nat (bitlen n)" using b by simp
  then have "(of_int (n + 1) :: rat) \<le> of_int (2 ^ nat (bitlen n))" by (subst of_int_le_iff)
  moreover have "q < of_int (n + 1)" unfolding n_def by linarith
  ultimately have "q < 2 ^ nat (bitlen n)" by simp
  moreover have "(2::rat) powi (bitlen n) = 2 ^ nat (bitlen n)"
    using bl by (simp add: power_int_def)
  ultimately have hi: "q < 2 powi (ilog2 q + 1)" by (simp add: e)
  from lo hi show ?thesis by simp
next
  case False
  define y where "y = 1 / q"
  define m where "m = \<lceil>y\<rceil> - 1"
  have y1: "1 < y" using False assms by (simp add: y_def)
  have m1: "1 \<le> m" using y1 by (simp add: m_def less_ceiling_iff)
  have my: "of_int m < y" "y \<le> of_int m + 1"
    by (simp_all add: m_def) linarith+
  have b: "2 ^ nat (bitlen m - 1) \<le> m \<and> m < 2 ^ nat (bitlen m)"
    using bitlen_bounds[of m] m1 by simp
  have bl: "1 \<le> bitlen m" using m1 by (simp add: bitlen_alt_def)
  have e: "ilog2 q = - bitlen m" using False by (simp add: ilog2_def m_def y_def)
  have "m + 1 \<le> 2 ^ nat (bitlen m)" using b by simp
  then have "(of_int (m + 1) :: rat) \<le> of_int (2 ^ nat (bitlen m))" by (subst of_int_le_iff)
  then have "y \<le> 2 ^ nat (bitlen m)" using my by simp
  then have "1 / q \<le> 2 ^ nat (bitlen m)" by (simp add: y_def)
  then have "1 / 2 ^ nat (bitlen m) \<le> q" using assms
    by (simp add: field_simps)
  moreover have "(2::rat) powi (- bitlen m) = 1 / 2 ^ nat (bitlen m)"
    using bl by (simp add: power_int_def field_simps)
  ultimately have lo: "2 powi (ilog2 q) \<le> q" by (simp add: e)
  have "(of_int (2 ^ nat (bitlen m - 1)) :: rat) \<le> of_int m" using b by (subst of_int_le_iff) simp
  then have "(2::rat) ^ nat (bitlen m - 1) \<le> of_int m" by simp
  then have "(2::rat) ^ nat (bitlen m - 1) < y" using my(1) by (rule le_less_trans)
  then have "(2::rat) ^ nat (bitlen m - 1) < 1 / q" by (simp add: y_def)
  then have "q < 1 / 2 ^ nat (bitlen m - 1)" using assms
    by (simp add: field_simps)
  moreover have "(2::rat) powi (- bitlen m + 1) = 1 / 2 ^ nat (bitlen m - 1)"
  proof -
    have "- bitlen m + 1 = - (bitlen m - 1)" by simp
    then have "(2::rat) powi (- bitlen m + 1) = 1 / 2 powi (bitlen m - 1)"
      by (simp only: power_int_minus_divide)
    also have "(2::rat) powi (bitlen m - 1) = 2 ^ nat (bitlen m - 1)"
      using bl by (simp add: power_int_nonneg_exp)
    finally show ?thesis .
  qed
  ultimately have hi: "q < 2 powi (ilog2 q + 1)" by (simp add: e)
  from lo hi show ?thesis by simp
qed

lemma pow2_less_imp: "(2::rat) powi a < 2 powi b \<Longrightarrow> a < b"
  using power_int_increasing[of b a "2::rat"] by (cases "a < b") auto

lemma ilog2_eqI:
  assumes "2 powi e \<le> q" "q < 2 powi (e + 1)"
  shows "ilog2 q = e"
proof -
  have q: "0 < q" using assms(1) by (smt (verit) zero_less_power_int zero_less_numeral less_le_trans)
  from ilog2_bounds[OF q] have b: "2 powi (ilog2 q) \<le> q" "q < 2 powi (ilog2 q + 1)" by simp_all
  have "(2::rat) powi e < 2 powi (ilog2 q + 1)" using assms(1) b(2) by simp
  then have "e < ilog2 q + 1" by (rule pow2_less_imp)
  moreover have "(2::rat) powi (ilog2 q) < 2 powi (e + 1)" using assms(2) b(1) by simp
  then have "ilog2 q < e + 1" by (rule pow2_less_imp)
  ultimately show ?thesis by simp
qed


lemma rne_floor_le: "\<lfloor>q\<rfloor> \<le> rne q"
  by (simp add: rne_def Let_def)



lemma rne_ge_int: "of_int n \<le> q \<Longrightarrow> n \<le> rne q"
proof -
  assume "of_int n \<le> q"
  then have "n \<le> \<lfloor>q\<rfloor>" by (simp add: le_floor_iff)
  with rne_floor_le[of q] show ?thesis by linarith
qed


lemma round_pos_eval:
  assumes "2 powi e \<le> q" "q < 2 powi (e + 1)"
  shows "round_pos q = of_int (rne (q / 2 powi (max (e - 52) (- 1074)))) * 2 powi (max (e - 52) (- 1074))"
  using ilog2_eqI[OF assms] by (simp add: round_pos_def Let_def)

lemma floor_rat_numeral_div: "\<lfloor>(numeral a :: rat) / numeral b\<rfloor> = numeral a div numeral b"
  using floor_divide_of_int_eq[of "numeral a" "numeral b", where ?'a = rat] by simp

lemma floor_rat_one_div: "\<lfloor>(1 :: rat) / numeral b\<rfloor> = 1 div numeral b"
  using floor_divide_of_int_eq[of 1 "numeral b", where ?'a = rat] by simp









lemma fl_round_not_NaN: "fl_round q \<noteq> NaN"
  by (simp add: fl_round_def Let_def)




subsection \<open>Evaluating the rounding at given values\<close>

lemmas fl_eval = fl_round_def rne_def Let_def floor_rat_numeral_div floor_rat_one_div

lemma fl_round_0: "fl_round 0 = Fin 0"
  by (simp add: fl_round_def)

lemma fl_round_1: "fl_round 1 = Fin 1"
  by (simp add: fl_eval round_pos_eval[where e = 0])

lemma fl_round_2: "fl_round 2 = Fin 2"
  by (simp add: fl_eval round_pos_eval[where e = 1])

lemma fl_round_3: "fl_round 3 = Fin 3"
  by (simp add: fl_eval round_pos_eval[where e = 1])

lemma fl_round_4: "fl_round 4 = Fin 4"
  by (simp add: fl_eval round_pos_eval[where e = 2])

lemma round_pos_subnormal:
  assumes "0 < q" "q < 2 powi (- 1022)"
  shows "round_pos q = of_int (rne (q / 2 powi (- 1074))) * 2 powi (- 1074)"
proof -
  have "2 powi (ilog2 q) \<le> q" using ilog2_bounds[OF assms(1)] by simp
  from this assms(2) have "(2::rat) powi (ilog2 q) < 2 powi (- 1022)" by (rule le_less_trans)
  then have "ilog2 q < - 1022" by (rule pow2_less_imp)
  then have "max (ilog2 q - 52) (- 1074) = - 1074" by simp
  then show ?thesis by (simp add: round_pos_def Let_def)
qed

lemma rne_zero_iff: "0 \<le> x \<Longrightarrow> rne x = 0 \<longleftrightarrow> x \<le> 1 / 2"
proof -
  assume x: "0 \<le> x"
  show ?thesis
  proof (cases "x < 1")
    case True
    with x have "\<lfloor>x\<rfloor> = 0" by (simp add: floor_eq_iff)
    then show ?thesis by (auto simp: rne_def Let_def)
  next
    case False
    then have "1 \<le> rne x" using rne_ge_int[of 1 x] by simp
    with False show ?thesis by simp
  qed
qed

lemma fl_round_underflow:
  assumes "0 < q" "q \<le> 2 powi (- 1075)"
  shows "fl_round q = Fin 0"
proof -
  have "(2::rat) powi (- 1075) < 2 powi (- 1022)" by (intro power_int_strict_increasing) simp_all
  with assms(2) have lt: "q < 2 powi (- 1022)" by simp
  have "(2::rat) powi (- 1075) = 2 powi (- 1074) * (1 / 2)"
    by (simp add: power_int_diff[of "2::rat" "- 1074" 1, simplified])
  with assms(2) have "q / 2 powi (- 1074) \<le> 1 / 2"
    by (simp add: pos_divide_le_eq mult.commute)
  moreover have "0 \<le> q / 2 powi (- 1074)" using assms(1) by simp
  ultimately have "rne (q / 2 powi (- 1074)) = 0" by (simp only: rne_zero_iff)
  then have "round_pos q = 0" by (simp add: round_pos_subnormal[OF assms(1) lt])
  then show ?thesis using assms(1) by (simp add: fl_round_def)
qed

lemma fl_round_tiny: "fl_round (1 / 2 ^ 1074 / 1000) = Fin 0"
  by (rule fl_round_underflow) simp_all

lemma labels_try_zero_division:
  "labels_try (Fin (1 / 2 ^ 1074)) (Fin 200) (Fin 100) (Fin 100) 1 = Inl ZeroDivisionError"
  using fl_round_tiny
  by (simp add: labels_try_def bind_err_def fl_round_0 fl_round_1 fl_round_2 fl_round_3
      fl_round_4)

section \<open>The guard and the handler of the yield calculator\<close>

text \<open>
  Claim C2. Whenever one of the five arguments is \<open>None\<close> or \<open>\<le> 0\<close>, or the roll
  diameter is \<open>\<le>\<close> the core diameter, \<open>calc_labels_per_roll\<close> returns 0; and whenever
  the arithmetic of the \<open>try\<close> block raises, whatever the exception, it returns 0 as
  well. The function has no other outcome than an integer.
\<close>

theorem calc_guard_returns_zero:
  assumes "thickness_mm = None \<or> roll_diam_cm = None \<or> core_diam_cm = None
           \<or> mark_set_cm = None \<or> lps = None
           \<or> (\<exists>v. thickness_mm = Some v \<and> fl_le v (Fin 0))
           \<or> (\<exists>v. roll_diam_cm = Some v \<and> fl_le v (Fin 0))
           \<or> (\<exists>v. core_diam_cm = Some v \<and> fl_le v (Fin 0))
           \<or> (\<exists>v. mark_set_cm = Some v \<and> fl_le v (Fin 0))
           \<or> (\<exists>n. lps = Some n \<and> n \<le> 0)
           \<or> (\<exists>r c. roll_diam_cm = Some r \<and> core_diam_cm = Some c \<and> fl_le r c)
           \<or> (\<exists>t r c m n e. thickness_mm = Some t \<and> roll_diam_cm = Some r
                 \<and> core_diam_cm = Some c \<and> mark_set_cm = Some m \<and> lps = Some n
                 \<and> labels_try t r c m n = Inl e)"
  shows "calc_labels_per_roll thickness_mm roll_diam_cm core_diam_cm mark_set_cm lps = 0"
proof (cases thickness_mm)
  case None
  then show ?thesis by simp
next
  case t: (Some t)
  show ?thesis
  proof (cases roll_diam_cm)
    case None
    then show ?thesis by (simp add: t)
  next
    case r: (Some r)
    show ?thesis
    proof (cases core_diam_cm)
      case None
      then show ?thesis by (simp add: t r)
    next
      case c: (Some c)
      show ?thesis
      proof (cases mark_set_cm)
        case None
        then show ?thesis by (simp add: t r c)
      next
        case m: (Some m)
        show ?thesis
        proof (cases lps)
          case None
          then show ?thesis by (simp add: t r c m)
        next
          case (Some n)
          with assms t r c m show ?thesis by auto
        qed
      qed
    qed
  qed
qed

theorem calc_guard_returns_zero_witness:
  "calc_labels_per_roll None (Some (Fin 30)) (Some (Fin 9)) (Some (Fin 11)) (Some 5) = 0
   \<and> calc_labels_per_roll (Some (Fin 1)) (Some (Fin 5)) (Some (Fin 9)) (Some (Fin 11)) (Some 5) = 0
   \<and> labels_try (Fin (1 / 2 ^ 1074)) (Fin 200) (Fin 100) (Fin 100) 1 = Inl ZeroDivisionError
   \<and> calc_labels_per_roll (Some (Fin (1 / 2 ^ 1074))) (Some (Fin 200)) (Some (Fin 100))
        (Some (Fin 100)) (Some 1) = 0"
proof -
  have 1: "calc_labels_per_roll None (Some (Fin 30)) (Some (Fin 9)) (Some (Fin 11)) (Some 5) = 0"
    by (rule calc_guard_returns_zero) simp
  have 2: "calc_labels_per_roll (Some (Fin 1)) (Some (Fin 5)) (Some (Fin 9)) (Some (Fin 11)) (Some 5) = 0"
    by (rule calc_guard_returns_zero) simp
  have 3: "calc_labels_per_roll (Some (Fin (1 / 2 ^ 1074))) (Some (Fin 200)) (Some (Fin 100))
        (Some (Fin 100)) (Some 1) = 0"
    using labels_try_zero_division by (intro calc_guard_returns_zero) blast
  from 1 2 3 labels_try_zero_division show ?thesis by simp
qed

section \<open>The catalog loader\<close>

lemma col_index_None_iff: "col_index c cs = None \<longleftrightarrow> c \<notin> set cs"
  by (induction cs) auto

lemma col_index_Some: "col_index c cs = Some i \<Longrightarrow> i < length cs \<and> cs ! i = c"
proof (induction cs arbitrary: i)
  case Nil
  then show ?case by simp
next
  case (Cons x xs)
  then show ?case by (cases "x = c") auto
qed

text \<open>
  Claim C6. When the BOM file is absent, when reading it raises, or when the sheet
  lacks the part-number column or the second part-name column, \<open>load_bom\<close> reports
  one diagnostic and returns the empty catalog with the two canonical columns. The
  read is inside \<open>try\<close>, so the function returns in every case.
\<close>

theorem load_bom_failure_empty:
  assumes "\<not> file_exists \<or> (\<exists>e. read_excel = Inl e)
           \<or> (\<exists>df. read_excel = Inr df
                 \<and> (col_pumbun \<notin> set (columns df) \<or> col_pummyeong_1 \<notin> set (columns df)))"
  shows "\<exists>d. load_bom file_exists read_excel
             = ([d], \<lparr>columns = [col_pumbun, col_pummyeong], rows = []\<rparr>)"
proof (cases file_exists)
  case False
  then show ?thesis by (simp add: load_bom_def empty_bom_def)
next
  case True
  show ?thesis
  proof (cases read_excel)
    case (Inl e)
    with True show ?thesis by (simp add: load_bom_def empty_bom_def)
  next
    case (Inr df)
    with True assms
    have "col_index col_pumbun (columns df) = None \<or> col_index col_pummyeong_1 (columns df) = None"
      by (simp add: col_index_None_iff)
    with True Inr show ?thesis
      by (auto simp: load_bom_def empty_bom_def split: option.splits)
  qed
qed

theorem load_bom_failure_empty_witness:
  "(\<exists>d. load_bom False (Inr \<lparr>columns = [col_pumbun, col_pummyeong_1], rows = [[Some ''A'', Some ''x'']]\<rparr>)
         = ([d], \<lparr>columns = [col_pumbun, col_pummyeong], rows = ([] :: string option list list)\<rparr>))
   \<and> (\<exists>d. load_bom True (Inl ''bad sheet'')
         = ([d], \<lparr>columns = [col_pumbun, col_pummyeong], rows = ([] :: string option list list)\<rparr>))
   \<and> (\<exists>d. load_bom True (Inr \<lparr>columns = [col_pumbun, col_pummyeong], rows = [[Some ''A'', Some ''x'']]\<rparr>)
         = ([d], \<lparr>columns = [col_pumbun, col_pummyeong], rows = ([] :: string option list list)\<rparr>))"
proof -
  have "col_pummyeong_1 \<notin> set [col_pumbun, col_pummyeong]"
    by (simp add: col_pumbun_def col_pummyeong_def col_pummyeong_1_def)
  then show ?thesis
    using load_bom_failure_empty[of False "Inr \<lparr>columns = [col_pumbun, col_pummyeong_1], rows = [[Some ''A'', Some ''x'']]\<rparr>"]
      load_bom_failure_empty[of True "Inl ''bad sheet''"]
      load_bom_failure_empty[of True "Inr \<lparr>columns = [col_pumbun, col_pummyeong], rows = [[Some ''A'', Some ''x'']]\<rparr>"]
    by simp
qed

lemma drop_duplicates_set:
  "r \<in> set (drop_duplicates i seen rs) \<Longrightarrow> r \<in> set rs \<and> cell_at r i \<notin> set seen"
proof (induction rs arbitrary: seen)
  case Nil
  then show ?case by simp
next
  case (Cons x xs)
  show ?case
  proof (cases "cell_at x i \<in> set seen")
    case True
    with Cons.prems Cons.IH[of seen] show ?thesis by simp
  next
    case False
    with Cons.prems Cons.IH[of "cell_at x i # seen"] show ?thesis by auto
  qed
qed

lemma drop_duplicates_keys:
  "(\<lambda>r. cell_at r i) ` set (drop_duplicates i seen rs) = (\<lambda>r. cell_at r i) ` set rs - set seen"
proof (induction rs arbitrary: seen)
  case Nil
  then show ?case by simp
next
  case (Cons r rs)
  show ?case
  proof (cases "cell_at r i \<in> set seen")
    case True
    then show ?thesis using Cons.IH[of seen] by auto
  next
    case False
    then show ?thesis using Cons.IH[of "cell_at r i # seen"] by auto
  qed
qed

lemma drop_duplicates_distinct:
  "distinct (map (\<lambda>r. cell_at r i) (drop_duplicates i seen rs))"
proof (induction rs arbitrary: seen)
  case Nil
  then show ?case by simp
next
  case (Cons r rs)
  show ?case
  proof (cases "cell_at r i \<in> set seen")
    case True
    then show ?thesis using Cons.IH[of seen] by simp
  next
    case False
    have "cell_at r i \<notin> (\<lambda>r. cell_at r i) ` set (drop_duplicates i (cell_at r i # seen) rs)"
      by (simp add: drop_duplicates_keys)
    then show ?thesis using False Cons.IH[of "cell_at r i # seen"] by simp
  qed
qed

lemma drop_duplicates_first:
  "r \<in> set (drop_duplicates i seen rs) \<Longrightarrow> find (\<lambda>s. cell_at s i = cell_at r i) rs = Some r"
proof (induction rs arbitrary: seen)
  case Nil
  then show ?case by simp
next
  case (Cons x xs)
  show ?case
  proof (cases "cell_at x i \<in> set seen")
    case True
    with Cons.prems have in_rest: "r \<in> set (drop_duplicates i seen xs)" by simp
    from drop_duplicates_set[OF in_rest] have "cell_at r i \<notin> set seen" by simp
    with True have "cell_at x i \<noteq> cell_at r i" by auto
    with Cons.IH[OF in_rest] show ?thesis by simp
  next
    case False
    with Cons.prems consider "r = x" | "r \<in> set (drop_duplicates i (cell_at x i # seen) xs)"
      by auto
    then show ?thesis
    proof cases
      case 1
      then show ?thesis by simp
    next
      case 2
      from drop_duplicates_set[OF 2] have "cell_at r i \<notin> set (cell_at x i # seen)" by simp
      then have "cell_at x i \<noteq> cell_at r i" by auto
      with Cons.IH[OF 2] show ?thesis by simp
    qed
  qed
qed

lemma find_filter_imp:
  "(\<And>x. P x \<Longrightarrow> Q x) \<Longrightarrow> find P (filter Q xs) = find P xs"
  by (induction xs) auto

lemma find_map: "find P (map f xs) = map_option f (find (\<lambda>x. P (f x)) xs)"
  by (induction xs) auto

lemma cell_at_pair: "cell_at [a, b] 0 = a" "cell_at [a, b] (Suc 0) = b"
  by (simp_all add: cell_at_def)

text \<open>
  Claim C5. For a sheet with both required columns (at positions \<open>i\<close> and \<open>j\<close>),
  \<open>load_bom\<close> reports nothing and returns a catalog in which no part number is
  missing, every part number of the sheet occurs exactly once, and each row is the
  part number and the cell of the column labelled with the suffix \<open>.1\<close> of the
  first row of the sheet that has this part number.
\<close>

theorem load_bom_catalog:
  assumes cols: "col_index col_pumbun (columns df) = Some i"
                "col_index col_pummyeong_1 (columns df) = Some j"
  shows "fst (load_bom True (Inr df)) = []
         \<and> columns (snd (load_bom True (Inr df))) = [col_pumbun, col_pummyeong]
         \<and> distinct (map (\<lambda>r. cell_at r 0) (rows (snd (load_bom True (Inr df)))))
         \<and> (\<lambda>r. cell_at r 0) ` set (rows (snd (load_bom True (Inr df))))
             = (\<lambda>s. cell_at s i) ` set (rows df) - {None}
         \<and> (\<forall>r \<in> set (rows (snd (load_bom True (Inr df)))).
               \<exists>s. find (\<lambda>s. cell_at s i = cell_at r 0) (rows df) = Some s
                 \<and> r = [cell_at s i, cell_at s j] \<and> cell_at s i \<noteq> None)"
proof -
  define sel where "sel = select2 i j (rows df)"
  define res where "res = drop_duplicates 0 [] (dropna 0 sel)"
  have lb: "load_bom True (Inr df) = ([], \<lparr>columns = [col_pumbun, col_pummyeong], rows = res\<rparr>)"
    using cols by (simp add: load_bom_def res_def sel_def)
  have d: "distinct (map (\<lambda>r. cell_at r 0) res)"
    unfolding res_def by (rule drop_duplicates_distinct)
  have k: "(\<lambda>r. cell_at r 0) ` set res = (\<lambda>s. cell_at s i) ` set (rows df) - {None}"
  proof -
    have "(\<lambda>r. cell_at r 0) ` set res = (\<lambda>r. cell_at r 0) ` set (dropna 0 sel)"
      unfolding res_def by (simp add: drop_duplicates_keys)
    also have "\<dots> = (\<lambda>r. cell_at r 0) ` set sel - {None}"
      by (auto simp: dropna_def)
    also have "(\<lambda>r. cell_at r 0) ` set sel = (\<lambda>s. cell_at s i) ` set (rows df)"
      by (auto simp: sel_def select2_def cell_at_pair image_iff)
    finally show ?thesis .
  qed
  have f: "\<exists>s. find (\<lambda>s. cell_at s i = cell_at r 0) (rows df) = Some s
             \<and> r = [cell_at s i, cell_at s j] \<and> cell_at s i \<noteq> None" if r: "r \<in> set res" for r
  proof -
    from r have in_dn: "r \<in> set (dropna 0 sel)"
      unfolding res_def using drop_duplicates_set by blast
    then have key: "cell_at r 0 \<noteq> None" by (simp add: dropna_def)
    from r have "find (\<lambda>s. cell_at s 0 = cell_at r 0) (dropna 0 sel) = Some r"
      unfolding res_def by (rule drop_duplicates_first)
    then have "find (\<lambda>s. cell_at s 0 = cell_at r 0) sel = Some r"
      using key unfolding dropna_def by (subst (asm) find_filter_imp) auto
    then have "map_option (\<lambda>s. [cell_at s i, cell_at s j])
                 (find (\<lambda>s. cell_at s i = cell_at r 0) (rows df)) = Some r"
      by (simp add: sel_def select2_def find_map cell_at_pair)
    then obtain s where s: "find (\<lambda>s. cell_at s i = cell_at r 0) (rows df) = Some s"
        "r = [cell_at s i, cell_at s j]" by auto
    from s(2) key have "cell_at s i \<noteq> None" by (simp add: cell_at_pair)
    with s show ?thesis by blast
  qed
  from d k f show ?thesis by (simp add: lb)
qed

theorem load_bom_catalog_witness:
  "col_index col_pumbun [col_pumbun, col_pummyeong, col_pummyeong_1] = Some 0
   \<and> col_index col_pummyeong_1 [col_pumbun, col_pummyeong, col_pummyeong_1] = Some 2
   \<and> distinct (map (\<lambda>r. cell_at r 0) (rows (snd (load_bom True (Inr
        \<lparr>columns = [col_pumbun, col_pummyeong, col_pummyeong_1],
         rows = [[Some ''A'', Some ''film'', Some ''alpha''],
                 [None, Some ''film'', Some ''gamma''],
                 [Some ''A'', Some ''film'', Some ''alpha2''],
                 [Some ''B'', Some ''film'', Some ''beta'']]\<rparr>)))))
   \<and> rows (snd (load_bom True (Inr
        \<lparr>columns = [col_pumbun, col_pummyeong, col_pummyeong_1],
         rows = [[Some ''A'', Some ''film'', Some ''alpha''],
                 [None, Some ''film'', Some ''gamma''],
                 [Some ''A'', Some ''film'', Some ''alpha2''],
                 [Some ''B'', Some ''film'', Some ''beta'']]\<rparr>)))
       = [[Some ''A'', Some ''alpha''], [Some ''B'', Some ''beta'']]"
proof -
  have h1: "col_index col_pumbun (columns \<lparr>columns = [col_pumbun, col_pummyeong, col_pummyeong_1],
         rows = [[Some ''A'', Some ''film'', Some ''alpha''],
                 [None, Some ''film'', Some ''gamma''],
                 [Some ''A'', Some ''film'', Some ''alpha2''],
                 [Some ''B'', Some ''film'', Some ''beta'']]\<rparr>) = Some 0"
    by simp
  have h2: "col_index col_pummyeong_1 (columns \<lparr>columns = [col_pumbun, col_pummyeong, col_pummyeong_1],
         rows = [[Some ''A'', Some ''film'', Some ''alpha''],
                 [None, Some ''film'', Some ''gamma''],
                 [Some ''A'', Some ''film'', Some ''alpha2''],
                 [Some ''B'', Some ''film'', Some ''beta'']]\<rparr>) = Some 2"
    by (simp add: col_pumbun_def col_pummyeong_def col_pummyeong_1_def)
  have r: "rows (snd (load_bom True (Inr
        \<lparr>columns = [col_pumbun, col_pummyeong, col_pummyeong_1],
         rows = [[Some ''A'', Some ''film'', Some ''alpha''],
                 [None, Some ''film'', Some ''gamma''],
                 [Some ''A'', Some ''film'', Some ''alpha2''],
                 [Some ''B'', Some ''film'', Some ''beta'']]\<rparr>)))
       = [[Some ''A'', Some ''alpha''], [Some ''B'', Some ''beta'']]"
    by (simp add: load_bom_def col_pumbun_def col_pummyeong_def col_pummyeong_1_def
        select2_def dropna_def cell_at_def)
  from load_bom_catalog[OF h1 h2] h1 h2 r show ?thesis by simp
qed

subsection \<open>upsert\<close>





section \<open>The config store\<close>




section \<open>The vendor of a thickness record\<close>




section \<open>The yield is never negative\<close>





















section \<open>The yield and the formula of the specification\<close>








section \<open>Exceptions under the guard\<close>















section \<open>Monotonicity in the roll diameter\<close>


















end
